theory Spec2Isabelle
  imports Main "HOL-Library.Extended_Nat"
begin


section \<open>Search nodes (module searchspace)\<close>

text \<open>
  Modelled from the spec: the search-space module (\<open>searchspace.py\<close>: the class
  \<open>SearchNode\<close> with \<open>make_root_node\<close>, \<open>make_child_node\<close> and
  \<open>extract_solution\<close>) is imported by \<open>a_star.py\<close> and is not among the sources.
  The spec (Data Model, External Interfaces) gives a node its state, a reference to its
  parent (none for the root), the operator that produced it (none for the root) and the
  accumulated cost \<open>g\<close>, the number of operators applied; a child costs one more than its
  parent, and the solution is the operator sequence read off the parent chain, root first.
\<close>

datatype ('s, 'a) SearchNode =
  SearchNode (state: 's) (parent: "('s, 'a) SearchNode option") (action: "'a option") (g: nat)

definition make_root_node :: "'s \<Rightarrow> ('s, 'a) SearchNode" where
  "make_root_node initial = SearchNode initial None None 0"

definition make_child_node :: "('s, 'a) SearchNode \<Rightarrow> 'a \<Rightarrow> 's \<Rightarrow> ('s, 'a) SearchNode" where
  "make_child_node parent_node opr new_state =
     SearchNode new_state (Some parent_node) (Some opr) (g parent_node + 1)"

text \<open>
  \<open>extract_solution\<close> collects the \<open>action\<close> attribute of every node that has a parent,
  from the node back to the root, each one put in front of the ones collected so far.
\<close>

fun extract_solution :: "('s, 'a) SearchNode \<Rightarrow> 'a option list" where
  "extract_solution (SearchNode s None a c) = []"
| "extract_solution (SearchNode s (Some p) a c) = extract_solution p @ [a]"

section \<open>Tasks, heuristics and frontier entries\<close>

text \<open>
  The task collaborator, as \<open>astar_search\<close> uses it: \<open>task.initial_state\<close>,
  \<open>task.goal_reached(state)\<close> and \<open>task.get_successor_states(state)\<close>, a finite
  sequence of (operator, state) pairs.
\<close>

record ('s, 'a) task =
  initial_state :: 's
  goal_reached :: "'s \<Rightarrow> bool"
  get_successor_states :: "'s \<Rightarrow> ('a \<times> 's) list"

text \<open>
  A heuristic value is a non-negative integer or \<open>float("inf")\<close>: the type \<open>enat\<close>,
  with \<open>\<infinity>\<close> for the infinite float. Path costs are Python integers that start at 0 and
  only grow by one: \<open>nat\<close>.
\<close>

type_synonym ('s, 'a) heuristic = "('s, 'a) SearchNode \<Rightarrow> enat"

text \<open>
  A frontier entry is the tuple \<open>(f, h, node_tiebreaker, node)\<close>. The type \<open>'k\<close> of the
  priority key is any linear order; the three policies of the source use \<open>enat\<close>.
\<close>

type_synonym ('s, 'a, 'k) entry = "'k \<times> enat \<times> nat \<times> ('s, 'a) SearchNode"

type_synonym ('s, 'a, 'k) make_entry =
  "('s, 'a) SearchNode \<Rightarrow> enat \<Rightarrow> nat \<Rightarrow> ('s, 'a, 'k) entry"

definition entry_node :: "('s, 'a, 'k) entry \<Rightarrow> ('s, 'a) SearchNode" where
  "entry_node e = snd (snd (snd e))"

definition ordered_node_astar :: "('s, 'a, enat) make_entry" where
  "ordered_node_astar node h node_tiebreaker =
     (let f = enat (g node) + h in (f, h, node_tiebreaker, node))"

text \<open>
  The weight is a positive integer (the spec asks for \<open>weight \<ge> 1\<close>, the default is 5).
\<close>

definition ordered_node_weighted_astar :: "nat \<Rightarrow> ('s, 'a, enat) make_entry" where
  "ordered_node_weighted_astar weight =
     (\<lambda>node h node_tiebreaker. (enat (g node) + enat weight * h, h, node_tiebreaker, node))"

definition ordered_node_greedy_best_first :: "('s, 'a, enat) make_entry" where
  "ordered_node_greedy_best_first node h node_tiebreaker =
     (let f = h in (f, h, node_tiebreaker, node))"

text \<open>
  The spec's ordering policy computes the priority key only; the entry pushed for it is
  \<open>(ordering_policy(node, h, tiebreaker), h, tiebreaker, node)\<close>. \<open>ordering_policy key\<close>
  is the \<open>make_open_entry\<close> callable of the source that belongs to the key function
  \<open>key\<close>.
\<close>

definition ordering_policy ::
  "(('s, 'a) SearchNode \<Rightarrow> enat \<Rightarrow> nat \<Rightarrow> 'k) \<Rightarrow> ('s, 'a, 'k) make_entry" where
  "ordering_policy key = (\<lambda>node h node_tiebreaker. (key node h node_tiebreaker, h, node_tiebreaker, node))"

section \<open>The frontier (module heapq)\<close>

text \<open>
  Python compares tuples lexicographically. The frontier's entries differ in their
  tiebreakers, so a comparison is decided by the first three components and never
  reaches the node.
\<close>

fun entry_less :: "('s, 'a, 'k::linorder) entry \<Rightarrow> ('s, 'a, 'k) entry \<Rightarrow> bool" where
  "entry_less (f1, h1, t1, n1) (f2, h2, t2, n2) =
     (f1 < f2 \<or> (f1 = f2 \<and> (h1 < h2 \<or> (h1 = h2 \<and> t1 < t2))))"

text \<open>
  \<open>heapq\<close> keeps a list as a binary min-heap; the search uses it as a priority queue
  only: \<open>heappush\<close> adds an item, \<open>heappop\<close> removes and returns the smallest one and
  raises IndexError (here \<open>None\<close>) on an empty heap. The model keeps the items in the
  order of their insertion.
\<close>

definition heappush :: "('s, 'a, 'k) entry list \<Rightarrow> ('s, 'a, 'k) entry \<Rightarrow> ('s, 'a, 'k) entry list" where
  "heappush heap item = heap @ [item]"

fun smallest :: "('s, 'a, 'k::linorder) entry \<Rightarrow> ('s, 'a, 'k) entry list \<Rightarrow> ('s, 'a, 'k) entry" where
  "smallest x [] = x"
| "smallest x (y # ys) = smallest (if entry_less y x then y else x) ys"

fun heappop ::
  "('s, 'a, 'k::linorder) entry list \<Rightarrow> (('s, 'a, 'k) entry \<times> ('s, 'a, 'k) entry list) option" where
  "heappop [] = None"
| "heappop (x # xs) = (let m = smallest x xs in Some (m, remove1 m (x # xs)))"

section \<open>The search (a_star.py)\<close>

text \<open>
  The local variables of \<open>astar_search\<close> that live across loop iterations.
\<close>

record ('s, 'a, 'k) search_state =
  "open" :: "('s, 'a, 'k) entry list"
  state_cost :: "'s \<rightharpoonup> nat"
  node_tiebreaker :: nat
  besth :: enat
  counter :: nat
  expansions :: nat

text \<open>
  The exception the search can raise. Line 168 builds its log message with
  \<open>"Initial h value: %f" % init_h\<close> before \<open>logging.info\<close> is called, at every log
  level. \<open>%f\<close> converts an integer to a float first, and Python raises OverflowError for
  an integer that does not round to a finite double: every integer from
  \<open>2 ^ 1024 - 2 ^ 970\<close> on. \<open>float("inf")\<close> is formatted as it is. (Line 190 formats
  with \<open>%d\<close>, which takes every integer, and only values below \<open>besth\<close>, which are
  finite.)
\<close>

datatype error = OverflowError

definition float_overflow :: "enat \<Rightarrow> bool" where
  "float_overflow h = (case h of enat n \<Rightarrow> 2 ^ 1024 - 2 ^ 970 \<le> n | \<infinity> \<Rightarrow> False)"

text \<open>
  The points of control of the search: at the test of \<open>while open\<close> (line 179), inside
  the \<open>for\<close> loop over the successors of the popped node (line 220) with the pairs still
  to come, after \<open>return\<close> with the returned value (\<open>None\<close> for Python's \<open>None\<close>), and
  after an exception has left the function.
\<close>

datatype ('s, 'a, 'k) config =
    Head "('s, 'a, 'k) search_state"
  | Successors "('s, 'a, 'k) search_state" "('s, 'a) SearchNode" "('a \<times> 's) list"
  | Return "'a option list option"
  | Raise error

text \<open>The body of the \<open>for\<close> loop, lines 220 to 247, for one pair.\<close>

definition expand_child ::
  "('s, 'a) heuristic \<Rightarrow> ('s, 'a, 'k) make_entry \<Rightarrow> ('s, 'a) SearchNode \<Rightarrow> 'a \<times> 's \<Rightarrow>
   ('s, 'a, 'k) search_state \<Rightarrow> ('s, 'a, 'k) search_state" where
  "expand_child heuristic make_open_entry pop_node pair st =
     (case pair of (opr, new_state) \<Rightarrow>
        let new_g = g pop_node + 1;
            neighbor_node = make_child_node pop_node opr new_state;
            h_neighbor = heuristic neighbor_node
        in if h_neighbor = \<infinity> then st
           else if (case state_cost st new_state of None \<Rightarrow> True | Some c \<Rightarrow> new_g < c)
           then let tie = node_tiebreaker st + 1
                in st\<lparr>state_cost := (state_cost st)(new_state \<mapsto> new_g),
                      node_tiebreaker := tie,
                      open := heappush (open st) (make_open_entry neighbor_node h_neighbor tie)\<rparr>
           else st)"

text \<open>
  One pass from the loop test to the \<open>for\<close> loop, lines 179 to 220: leave the loop on
  an empty frontier and return \<open>None\<close> (lines 254 to 256), else pop, update \<open>besth\<close>,
  drop a stale entry (\<open>continue\<close>), count the expansion, return the solution at a goal,
  and otherwise enter the \<open>for\<close> loop.
\<close>

definition iteration :: "('s, 'a) task \<Rightarrow> ('s, 'a, 'k::linorder) search_state \<Rightarrow> ('s, 'a, 'k) config" where
  "iteration task st =
     (case heappop (open st) of
        None \<Rightarrow> Return None
      | Some ((f, h, tie, pop_node), rest) \<Rightarrow>
          let st1 = st\<lparr>open := rest, besth := (if h < besth st then h else besth st)\<rparr>;
              pop_state = state pop_node;
              pop_g = g pop_node
          in if (case state_cost st1 pop_state of None \<Rightarrow> \<infinity> | Some c \<Rightarrow> enat c) < enat pop_g
             then Head st1
             else let st2 = st1\<lparr>expansions := expansions st1 + 1\<rparr>
                  in if goal_reached task pop_state
                     then Return (Some (extract_solution pop_node))
                     else Successors st2 pop_node (get_successor_states task pop_state))"

fun step ::
  "('s, 'a) task \<Rightarrow> ('s, 'a) heuristic \<Rightarrow> ('s, 'a, 'k::linorder) make_entry \<Rightarrow>
   ('s, 'a, 'k) config \<Rightarrow> ('s, 'a, 'k) config" where
  "step task heuristic make_open_entry (Head st) = iteration task st"
| "step task heuristic make_open_entry (Successors st pop_node (pair # pairs)) =
     Successors (expand_child heuristic make_open_entry pop_node pair st) pop_node pairs"
| "step task heuristic make_open_entry (Successors st pop_node []) =
     Head (st\<lparr>counter := counter st + 1\<rparr>)"
| "step task heuristic make_open_entry (Return r) = Return r"
| "step task heuristic make_open_entry (Raise e) = Raise e"

text \<open>
  Running the search to its end. A search that never ends has the value \<open>None\<close>;
  \<open>Some (Inl e)\<close> is the exception \<open>e\<close>, \<open>Some (Inr None)\<close> the returned \<open>None\<close> (no
  solution) and \<open>Some (Inr (Some plan))\<close> a returned solution.
\<close>

partial_function (option) run ::
  "('s, 'a) task \<Rightarrow> ('s, 'a) heuristic \<Rightarrow> ('s, 'a, 'k::linorder) make_entry \<Rightarrow>
   ('s, 'a, 'k) config \<Rightarrow> (error + 'a option list option) option" where
  "run task heuristic make_open_entry c =
     (case c of
        Return r \<Rightarrow> Some (Inr r)
      | Raise e \<Rightarrow> Some (Inl e)
      | Head st \<Rightarrow> run task heuristic make_open_entry (step task heuristic make_open_entry c)
      | Successors st pop_node pairs \<Rightarrow>
          run task heuristic make_open_entry (step task heuristic make_open_entry c))"

text \<open>
  Lines 141 to 176: the root is pushed (line 167), then the log message of line 168 is
  built, which raises when the root's heuristic value is too large for a float; otherwise
  the search arrives at the first test of the loop.
\<close>

definition initial_config ::
  "('s, 'a) task \<Rightarrow> ('s, 'a) heuristic \<Rightarrow> ('s, 'a, 'k::linorder) make_entry \<Rightarrow> ('s, 'a, 'k) config" where
  "initial_config task heuristic make_open_entry =
     (let root = make_root_node (initial_state task);
          init_h = heuristic root;
          open_heap = heappush [] (make_open_entry root init_h 0)
      in if float_overflow init_h then Raise OverflowError
         else Head \<lparr>open = open_heap,
                    state_cost = [initial_state task \<mapsto> 0],
                    node_tiebreaker = 0,
                    besth = \<infinity>,
                    counter = 0,
                    expansions = 0\<rparr>)"

text \<open>
  An optional argument is \<open>None\<close> when the caller leaves it out. \<open>make_open_entry\<close>
  defaults to \<open>ordered_node_astar\<close>; since its default fixes the key type, the model
  takes it always and \<open>astar_search_default\<close> is the call that leaves it out.
\<close>

definition astar_search ::
  "('s, 'a) task \<Rightarrow> ('s, 'a) heuristic \<Rightarrow> ('s, 'a, 'k::linorder) make_entry \<Rightarrow> bool option \<Rightarrow>
   (error + 'a option list option) option" where
  "astar_search task heuristic make_open_entry use_relaxed_plan =
     (let use_relaxed_plan = (case use_relaxed_plan of None \<Rightarrow> False | Some b \<Rightarrow> b);
          use_relaxed_plan = False
      in run task heuristic make_open_entry (initial_config task heuristic make_open_entry))"

definition astar_search_default ::
  "('s, 'a) task \<Rightarrow> ('s, 'a) heuristic \<Rightarrow> (error + 'a option list option) option" where
  "astar_search_default task heuristic = astar_search task heuristic ordered_node_astar None"

definition greedy_best_first_search ::
  "('s, 'a) task \<Rightarrow> ('s, 'a) heuristic \<Rightarrow> bool option \<Rightarrow>
   (error + 'a option list option) option" where
  "greedy_best_first_search task heuristic use_relaxed_plan =
     (let use_relaxed_plan = (case use_relaxed_plan of None \<Rightarrow> False | Some b \<Rightarrow> b)
      in astar_search task heuristic ordered_node_greedy_best_first (Some use_relaxed_plan))"

definition weighted_astar_search ::
  "('s, 'a) task \<Rightarrow> ('s, 'a) heuristic \<Rightarrow> nat option \<Rightarrow> bool option \<Rightarrow>
   (error + 'a option list option) option" where
  "weighted_astar_search task heuristic weight use_relaxed_plan =
     (let weight = (case weight of None \<Rightarrow> 5 | Some w \<Rightarrow> w);
          use_relaxed_plan = (case use_relaxed_plan of None \<Rightarrow> False | Some b \<Rightarrow> b)
      in astar_search task heuristic (ordered_node_weighted_astar weight) (Some use_relaxed_plan))"

section \<open>Executions\<close>

text \<open>
  The point the search has reached after \<open>n\<close> steps: \<open>config_at \<dots> 0\<close> is the first
  point after lines 141 to 176, and a search that has ended stays at its \<open>Return\<close> or
  \<open>Raise\<close>.
\<close>

definition config_at ::
  "('s, 'a) task \<Rightarrow> ('s, 'a) heuristic \<Rightarrow> ('s, 'a, 'k::linorder) make_entry \<Rightarrow> nat \<Rightarrow> ('s, 'a, 'k) config" where
  "config_at task heuristic make_open_entry n =
     (step task heuristic make_open_entry ^^ n) (initial_config task heuristic make_open_entry)"

text \<open>The local variables at a point of the loop; there are none after the end.\<close>

fun search_state_of :: "('s, 'a, 'k) config \<Rightarrow> ('s, 'a, 'k) search_state option" where
  "search_state_of (Head st) = Some st"
| "search_state_of (Successors st pop_node pairs) = Some st"
| "search_state_of (Return r) = None"
| "search_state_of (Raise e) = None"

section \<open>The state space of a task\<close>

text \<open>
  One state is a successor of another when \<open>get_successor_states\<close> lists it; the
  reachable states are those the initial state leads to by any number of operators, and
  \<open>successor_rel task ^^ k\<close> relates the states exactly \<open>k\<close> operators apart.
\<close>

definition successor_rel :: "('s, 'a) task \<Rightarrow> ('s \<times> 's) set" where
  "successor_rel task = {(s, s'). s' \<in> snd ` set (get_successor_states task s)}"


text \<open>
  A node the search can build: the root of the task, or a child made from such a node and
  one of the pairs that \<open>get_successor_states\<close> returns for its state.
\<close>

fun valid_node :: "('s, 'a) task \<Rightarrow> ('s, 'a) SearchNode \<Rightarrow> bool" where
  "valid_node task (SearchNode s None a c) = (s = initial_state task \<and> a = None \<and> c = 0)"
| "valid_node task (SearchNode s (Some p) a c) =
     (valid_node task p \<and> c = g p + 1 \<and>
      (case a of None \<Rightarrow> False | Some opr \<Rightarrow> (opr, s) \<in> set (get_successor_states task (state p))))"

section \<open>Invariants of the loop\<close>

text \<open>
  What holds of the frontier and the cost table at every point of a search with an
  ordering policy: every frontier entry was made by the policy from a node the search
  built and from its heuristic value, the table has a value for the entry's state that is
  at most the entry's cost, and every value of the table is the length of a path from the
  initial state. Inside the \<open>for\<close> loop the popped node is at its table value and the
  remaining pairs are successors of its state.
\<close>

definition state_inv ::
  "('s, 'a) task \<Rightarrow> ('s, 'a) heuristic \<Rightarrow> (('s, 'a) SearchNode \<Rightarrow> enat \<Rightarrow> nat \<Rightarrow> 'k) \<Rightarrow>
   ('s, 'a, 'k) search_state \<Rightarrow> bool" where
  "state_inv task heuristic key st \<longleftrightarrow>
     (\<forall>e\<in>set (open st).
        valid_node task (entry_node e) \<and>
        (\<exists>t. e = ordering_policy key (entry_node e) (heuristic (entry_node e)) t) \<and>
        (\<exists>c. state_cost st (state (entry_node e)) = Some c \<and> c \<le> g (entry_node e))) \<and>
     (\<forall>s c. state_cost st s = Some c \<longrightarrow> (initial_state task, s) \<in> successor_rel task ^^ c)"

fun config_inv ::
  "('s, 'a) task \<Rightarrow> ('s, 'a) heuristic \<Rightarrow> (('s, 'a) SearchNode \<Rightarrow> enat \<Rightarrow> nat \<Rightarrow> 'k) \<Rightarrow>
   ('s, 'a, 'k) config \<Rightarrow> bool" where
  "config_inv task heuristic key (Head st) = state_inv task heuristic key st"
| "config_inv task heuristic key (Successors st nd pairs) =
     (state_inv task heuristic key st \<and> valid_node task nd \<and>
      state_cost st (state nd) = Some (g nd) \<and>
      set pairs \<subseteq> set (get_successor_states task (state nd)))"
| "config_inv task heuristic key (Return r) = True"
| "config_inv task heuristic key (Raise e) = True"

section \<open>A measure that every step decreases\<close>






section \<open>Example tasks\<close>

text \<open>
  A chain \<open>0 \<rightarrow> 1 \<rightarrow> 2\<close> with goal 2 (each operator named by the state it leaves), the
  same chain with no goal, the heuristic that is 0 everywhere and the heuristic that is
  the integer \<open>2 ^ 1024\<close> everywhere.
\<close>

definition line_task :: "(nat, nat) task" where
  "line_task = \<lparr>initial_state = 0, goal_reached = (\<lambda>s. s = 2),
     get_successor_states = (\<lambda>s. if s < 2 then [(s, s + 1)] else [])\<rparr>"

definition dead_end_task :: "(nat, nat) task" where
  "dead_end_task = \<lparr>initial_state = 0, goal_reached = (\<lambda>s. False),
     get_successor_states = (\<lambda>s. if s < 2 then [(s, s + 1)] else [])\<rparr>"

definition blind :: "(nat, nat) heuristic" where
  "blind node = 0"




text \<open>
  A task with two paths to state 4: \<open>0 \<rightarrow> 2 \<rightarrow> 3 \<rightarrow> 4\<close> of cost 3 and \<open>0 \<rightarrow> 1 \<rightarrow> 4\<close> of
  cost 2; state 5, the goal, follows state 4, and state 6 is a dead end after state 1.
  The heuristic \<open>detour_h\<close> draws a greedy search along the longer path first and is
  infinite at the dead end.
\<close>

definition detour_task :: "(nat, nat) task" where
  "detour_task = \<lparr>initial_state = 0, goal_reached = (\<lambda>s. s = 5),
     get_successor_states = (\<lambda>s.
       if s = 0 then [(0, 2), (1, 1)]
       else if s = 1 then [(4, 4), (5, 6)]
       else if s = 2 then [(2, 3)]
       else if s = 3 then [(3, 4)]
       else if s = 4 then [(6, 5)]
       else [])\<rparr>"

definition detour_h :: "(nat, nat) heuristic" where
  "detour_h node =
     (if state node = 0 then 3 else if state node = 1 then 2 else if state node = 2 then 1
      else if state node = 3 then 1 else if state node = 4 then 3
      else if state node = 5 then 0 else \<infinity>)"

section \<open>The history of an execution\<close>

text \<open>
  The nodes a step pushes onto the frontier: only the body of the \<open>for\<close> loop calls
  \<open>heappush\<close> (line 247), which appends to the frontier of the model, so the pushed
  nodes are those of the entries beyond the old frontier. \<open>pushed_nodes \<dots> n\<close> lists
  the nodes pushed before point \<open>n\<close>, starting with the push of the root (line 167).
\<close>

fun pushed_by ::
  "('s, 'a) heuristic \<Rightarrow> ('s, 'a, 'k) make_entry \<Rightarrow> ('s, 'a, 'k) config \<Rightarrow> ('s, 'a) SearchNode list" where
  "pushed_by heuristic make_open_entry (Successors st pop_node (pair # pairs)) =
     map entry_node (drop (length (open st))
       (open (expand_child heuristic make_open_entry pop_node pair st)))"
| "pushed_by heuristic make_open_entry c = []"

fun pushed_nodes ::
  "('s, 'a) task \<Rightarrow> ('s, 'a) heuristic \<Rightarrow> ('s, 'a, 'k::linorder) make_entry \<Rightarrow> nat \<Rightarrow>
   ('s, 'a) SearchNode list" where
  "pushed_nodes task heuristic make_open_entry 0 =
     (case search_state_of (initial_config task heuristic make_open_entry) of
        None \<Rightarrow> [] | Some st \<Rightarrow> map entry_node (open st))"
| "pushed_nodes task heuristic make_open_entry (Suc n) =
     pushed_nodes task heuristic make_open_entry n @
     pushed_by heuristic make_open_entry (config_at task heuristic make_open_entry n)"

text \<open>
  The children a step generates: the body of the \<open>for\<close> loop makes one child node for
  its pair (line 223), pushed or not. \<open>generated_nodes \<dots> n\<close> lists the children
  generated before point \<open>n\<close>.
\<close>

fun generated_by :: "('s, 'a, 'k) config \<Rightarrow> ('s, 'a) SearchNode list" where
  "generated_by (Successors st pop_node ((opr, new_state) # pairs)) =
     [make_child_node pop_node opr new_state]"
| "generated_by c = []"

fun generated_nodes ::
  "('s, 'a) task \<Rightarrow> ('s, 'a) heuristic \<Rightarrow> ('s, 'a, 'k::linorder) make_entry \<Rightarrow> nat \<Rightarrow>
   ('s, 'a) SearchNode list" where
  "generated_nodes task heuristic make_open_entry 0 = []"
| "generated_nodes task heuristic make_open_entry (Suc n) =
     generated_nodes task heuristic make_open_entry n @
     generated_by (config_at task heuristic make_open_entry n)"

text \<open>
  The cost table against a list of pushed nodes: every node's state has a table value
  that is at most the node's cost, and every table value is the cost of one of the nodes
  of that state.
\<close>

definition table_of_pushed :: "('s \<rightharpoonup> nat) \<Rightarrow> ('s, 'a) SearchNode list \<Rightarrow> bool" where
  "table_of_pushed table nodes \<longleftrightarrow>
     (\<forall>nd\<in>set nodes. \<exists>c. table (state nd) = Some c \<and> c \<le> g nd) \<and>
     (\<forall>s c. table s = Some c \<longrightarrow> (\<exists>nd\<in>set nodes. state nd = s \<and> g nd = c))"

section \<open>Shortest plans and admissible heuristics\<close>











text \<open>
  The frontier's entries carry pairwise different tiebreakers, none above the counter, so
  the comparison of two different entries is decided before it reaches their nodes.
\<close>

definition ties_distinct :: "('s, 'a, 'k) search_state \<Rightarrow> bool" where
  "ties_distinct st \<longleftrightarrow>
     distinct (map (\<lambda>e. fst (snd (snd e))) (open st)) \<and>
     (\<forall>e\<in>set (open st). fst (snd (snd e)) \<le> node_tiebreaker st)"

section \<open>The frontier pops a smallest entry\<close>

lemma entry_less_lex:
  "entry_less (f1, h1, t1, n1) (f2, h2, t2, n2) \<longleftrightarrow>
     ((f1, h1, t1), (f2, h2, t2)) \<in> {(a, b). a < b} <*lex*> {(a, b). a < b} <*lex*> {(a, b). a < b}"
  by auto

lemma smallest_in: "smallest x xs \<in> set (x # xs)"
  by (induction xs arbitrary: x) (auto split: if_splits)

lemma entry_not_less_trans: "\<not> entry_less a b \<Longrightarrow> \<not> entry_less b c \<Longrightarrow> \<not> entry_less a c"
  by (cases a; cases b; cases c) auto

lemma smallest_le_start: "\<not> entry_less x (smallest x xs)"
proof (induction xs arbitrary: x)
  case Nil
  then show ?case by (cases x) auto
next
  case (Cons y ys)
  show ?case
  proof (cases "entry_less y x")
    case True
    have "\<not> entry_less y (smallest y ys)" by (rule Cons.IH)
    moreover have "\<not> entry_less x y" using True by (cases x; cases y) auto
    ultimately have "\<not> entry_less x (smallest y ys)"
      using entry_not_less_trans[of x y "smallest y ys"] by blast
    then show ?thesis using True by simp
  next
    case False
    then show ?thesis using Cons.IH[of x] by simp
  qed
qed

lemma smallest_minimal: "e \<in> set (x # xs) \<Longrightarrow> \<not> entry_less e (smallest x xs)"
proof (induction xs arbitrary: x)
  case Nil
  then show ?case by (cases x) auto
next
  case (Cons y ys)
  let ?z = "if entry_less y x then y else x"
  have zx: "\<not> entry_less x ?z" by (cases x; cases y) auto
  have zy: "\<not> entry_less y ?z" by (cases x; cases y) auto
  have zs: "\<not> entry_less ?z (smallest ?z ys)" by (rule smallest_le_start)
  consider "e = x" | "e = y" | "e \<in> set ys" using Cons.prems by auto
  then show ?case
  proof cases
    case 1
    then show ?thesis using entry_not_less_trans[OF zx zs] by simp
  next
    case 2
    then show ?thesis using entry_not_less_trans[OF zy zs] by simp
  next
    case 3
    then have "e \<in> set (?z # ys)" by simp
    then have "\<not> entry_less e (smallest ?z ys)" by (rule Cons.IH)
    then show ?thesis by simp
  qed
qed

lemma heappop_Some:
  assumes "heappop heap = Some (m, rest)"
  shows "m \<in> set heap \<and> rest = remove1 m heap \<and> (\<forall>e\<in>set heap. \<not> entry_less e m)"
proof (cases heap)
  case Nil
  then show ?thesis using assms by simp
next
  case (Cons x xs)
  then have m: "m = smallest x xs" and r: "rest = remove1 m heap"
    using assms by (auto simp: Let_def simp del: smallest.simps)
  have "m \<in> set heap" unfolding m Cons by (rule smallest_in)
  moreover have "\<forall>e\<in>set heap. \<not> entry_less e m"
    unfolding m Cons using smallest_minimal by blast
  ultimately show ?thesis using r by blast
qed


section \<open>The ordering policies\<close>

text \<open>
  C8: each ordering policy maps (node, h, tiebreaker) to the frontier entry
  (priority_key, h, tiebreaker, node), with priority_key = node.g + h for
  \<open>ordered_node_astar\<close>, node.g + weight * h for the function that
  \<open>ordered_node_weighted_astar(weight)\<close> returns and h for
  \<open>ordered_node_greedy_best_first\<close>. Entries are compared lexicographically by
  priority_key, then h, then tiebreaker: the comparison is the lexicographic product of
  the three orders, and the entry the frontier pops is one of its entries that no other
  entry is smaller than.
\<close>

theorem ordering_policy_entries:
  "ordered_node_astar node h tie = (enat (g node) + h, h, tie, node) \<and>
   ordered_node_weighted_astar weight node h tie = (enat (g node) + enat weight * h, h, tie, node) \<and>
   ordered_node_greedy_best_first node h tie = (h, h, tie, node) \<and>
   ordered_node_astar = ordering_policy (\<lambda>node h tie. enat (g node) + h) \<and>
   ordered_node_weighted_astar weight = ordering_policy (\<lambda>node h tie. enat (g node) + enat weight * h) \<and>
   ordered_node_greedy_best_first = ordering_policy (\<lambda>node h tie. h) \<and>
   (entry_less (f1, h1, t1, n1) (f2, h2, t2, n2) \<longleftrightarrow>
      ((f1, h1, t1), (f2, h2, t2)) \<in> {(a, b). a < b} <*lex*> {(a, b). a < b} <*lex*> {(a, b). a < b}) \<and>
   (heappop heap = Some (m, rest) \<longrightarrow>
      m \<in> set heap \<and> rest = remove1 m heap \<and> (\<forall>e\<in>set heap. \<not> entry_less e m))"
proof -
  have "ordered_node_astar = ordering_policy (\<lambda>node h tie. enat (g node) + h)"
    by (intro ext) (simp add: ordered_node_astar_def ordering_policy_def)
  moreover have "ordered_node_weighted_astar weight =
      ordering_policy (\<lambda>node h tie. enat (g node) + enat weight * h)"
    by (simp add: ordered_node_weighted_astar_def ordering_policy_def)
  moreover have "ordered_node_greedy_best_first = ordering_policy (\<lambda>node h tie. h)"
    by (intro ext) (simp add: ordered_node_greedy_best_first_def ordering_policy_def)
  moreover have "entry_less (f1, h1, t1, n1) (f2, h2, t2, n2) \<longleftrightarrow>
      ((f1, h1, t1), (f2, h2, t2)) \<in> {(a, b). a < b} <*lex*> {(a, b). a < b} <*lex*> {(a, b). a < b}"
    by (rule entry_less_lex)
  moreover have "heappop heap = Some (m, rest) \<longrightarrow>
      m \<in> set heap \<and> rest = remove1 m heap \<and> (\<forall>e\<in>set heap. \<not> entry_less e m)"
    using heappop_Some by blast
  ultimately show ?thesis
    by (simp add: ordered_node_astar_def ordered_node_weighted_astar_def
        ordered_node_greedy_best_first_def)
qed

theorem ordering_policy_entries_witness:
  "heappop [ordered_node_astar (make_root_node (0::nat)) 3 0,
            ordered_node_weighted_astar 5 (make_child_node (make_root_node 0) (7::nat) 1) 0 1,
            ordered_node_greedy_best_first (make_root_node 0) 1 2]
     = Some ((1, 0, 1, make_child_node (make_root_node 0) 7 1),
             [(3, 3, 0, make_root_node 0), (1, 1, 2, make_root_node 0)]) \<and>
   \<not> entry_less (1, 1, 2, make_root_node (0::nat)) (1::enat, 0, 1, make_child_node (make_root_node 0) (7::nat) 1)"
  using ordering_policy_entries[of "make_root_node (0::nat)" 3 0 5 1 3 0 "make_root_node (0::nat)"
      1 0 1 "make_child_node (make_root_node 0) (7::nat) 1"
      "[(3, 3, 0, make_root_node (0::nat)), (1, 0, 1, make_child_node (make_root_node 0) (7::nat) 1),
        (1, 1, 2, make_root_node 0)]"
      "(1, 0, 1, make_child_node (make_root_node (0::nat)) (7::nat) 1)"
      "[(3, 3, 0, make_root_node (0::nat)), (1, 1, 2, make_root_node 0)]"]
  by (simp add: ordered_node_astar_def ordered_node_weighted_astar_def
      ordered_node_greedy_best_first_def make_root_node_def make_child_node_def
      one_enat_def zero_enat_def numeral_eq_enat)

section \<open>The body of the expansion loop\<close>

text \<open>
  C5: during expansion every successor child gets the cost new_g = parent.g + 1. A child
  whose heuristic value is finite is pushed exactly when its state is absent from the cost
  table or new_g is strictly less than the table's value for it; on a push the table
  entry becomes new_g and the tiebreaker counter is incremented before it is used in the
  new entry. In every other case the frontier, the table and the counter stay as they are.
\<close>

theorem expand_child_push:
  "g (make_child_node pop_node opr new_state) = g pop_node + 1 \<and>
   (if heuristic (make_child_node pop_node opr new_state) \<noteq> \<infinity> \<and>
       (state_cost st new_state = None \<or>
        (\<exists>c. state_cost st new_state = Some c \<and> g pop_node + 1 < c))
    then expand_child heuristic make_open_entry pop_node (opr, new_state) st =
           st\<lparr>state_cost := (state_cost st)(new_state \<mapsto> g pop_node + 1),
              node_tiebreaker := node_tiebreaker st + 1,
              open := open st @ [make_open_entry (make_child_node pop_node opr new_state)
                        (heuristic (make_child_node pop_node opr new_state))
                        (node_tiebreaker st + 1)]\<rparr>
    else expand_child heuristic make_open_entry pop_node (opr, new_state) st = st)"
  by (auto simp: expand_child_def make_child_node_def heappush_def Let_def split: option.splits)

section \<open>Arguments that change nothing, and defaults\<close>

text \<open>
  C9: the result of \<open>astar_search\<close> is the same whether \<open>use_relaxed_plan\<close> is True or
  False (or left out): the argument is overwritten with False before anything reads it.
  The same holds for \<open>greedy_best_first_search\<close> and \<open>weighted_astar_search\<close>, which
  hand the argument on.
\<close>

theorem use_relaxed_plan_ignored:
  "astar_search task heuristic make_open_entry (Some True) =
     astar_search task heuristic make_open_entry (Some False) \<and>
   greedy_best_first_search task heuristic (Some True) =
     greedy_best_first_search task heuristic (Some False) \<and>
   weighted_astar_search task heuristic weight (Some True) =
     weighted_astar_search task heuristic weight (Some False) \<and>
   astar_search task heuristic make_open_entry u1 = astar_search task heuristic make_open_entry u2 \<and>
   greedy_best_first_search task heuristic u1 = greedy_best_first_search task heuristic u2 \<and>
   weighted_astar_search task heuristic weight u1 = weighted_astar_search task heuristic weight u2"
  by (simp add: astar_search_def greedy_best_first_search_def weighted_astar_search_def)

text \<open>
  C10: \<open>weighted_astar_search\<close> called without a weight uses weight 5: it returns what
  \<open>astar_search\<close> returns with the policy \<open>ordered_node_weighted_astar(5)\<close>, whose
  entries have the key g + 5 * h.
\<close>

theorem weighted_astar_search_default_weight:
  "weighted_astar_search task heuristic None u =
     astar_search task heuristic (ordered_node_weighted_astar 5) u \<and>
   ordered_node_weighted_astar 5 node h tie = (enat (g node) + 5 * h, h, tie, node)"
  by (simp add: astar_search_def weighted_astar_search_def ordered_node_weighted_astar_def
      numeral_eq_enat)

section \<open>Running the loop and counting its steps\<close>










section \<open>The invariants hold at every point\<close>

lemma valid_node_path:
  "valid_node task nd \<Longrightarrow> (initial_state task, state nd) \<in> successor_rel task ^^ g nd"
proof (induction task nd rule: valid_node.induct)
  case (1 task s a c)
  then show ?case by simp
next
  case (2 task s p a c)
  then obtain opr where a: "a = Some opr"
    and mem: "(opr, s) \<in> set (get_successor_states task (state p))"
    by (auto split: option.splits)
  have "(state p, s) \<in> successor_rel task"
    using mem by (force simp: successor_rel_def)
  moreover have "(initial_state task, state p) \<in> successor_rel task ^^ g p"
    using 2 by simp
  ultimately show ?case using 2(2) by auto
qed


lemma valid_root: "valid_node task (make_root_node (initial_state task))"
  by (simp add: make_root_node_def)

lemma valid_child:
  "valid_node task p \<Longrightarrow> (opr, s') \<in> set (get_successor_states task (state p)) \<Longrightarrow>
   valid_node task (make_child_node p opr s')"
  by (simp add: make_child_node_def)

lemma entry_node_policy [simp]: "entry_node (ordering_policy key nd h t) = nd"
  by (simp add: entry_node_def ordering_policy_def)

lemma child_simps [simp]:
  "state (make_child_node p opr s') = s'"
  "g (make_child_node p opr s') = g p + 1"
  by (simp_all add: make_child_node_def)

lemma expand_child_cases:
  "expand_child heuristic mk nd (opr, s') st =
     (if heuristic (make_child_node nd opr s') = \<infinity> \<or>
         (\<exists>c. state_cost st s' = Some c \<and> c \<le> g nd + 1)
      then st
      else st\<lparr>state_cost := (state_cost st)(s' \<mapsto> g nd + 1),
              node_tiebreaker := node_tiebreaker st + 1,
              open := open st @ [mk (make_child_node nd opr s')
                        (heuristic (make_child_node nd opr s')) (node_tiebreaker st + 1)]\<rparr>)"
  by (auto simp: expand_child_def heappush_def Let_def split: option.splits)

lemma state_inv_initial:
  "config_inv task heuristic key (initial_config task heuristic (ordering_policy key))"
  by (auto simp: initial_config_def Let_def state_inv_def heappush_def valid_root
      make_root_node_def split: if_splits)

lemma state_inv_expand_child:
  assumes inv: "state_inv task heuristic key st"
    and nd: "valid_node task nd"
    and mem: "(opr, s') \<in> set (get_successor_states task (state nd))"
  shows "state_inv task heuristic key (expand_child heuristic (ordering_policy key) nd (opr, s') st)"
proof (cases "heuristic (make_child_node nd opr s') = \<infinity> \<or>
         (\<exists>c. state_cost st s' = Some c \<and> c \<le> g nd + 1)")
  case True
  have "expand_child heuristic (ordering_policy key) nd (opr, s') st = st"
    unfolding expand_child_cases using True by (rule if_P)
  then show ?thesis using inv by simp
next
  case False
  let ?child = "make_child_node nd opr s'"
  let ?st' = "expand_child heuristic (ordering_policy key) nd (opr, s') st"
  have st': "?st' = st\<lparr>state_cost := (state_cost st)(s' \<mapsto> g nd + 1),
              node_tiebreaker := node_tiebreaker st + 1,
              open := open st @ [ordering_policy key ?child (heuristic ?child) (node_tiebreaker st + 1)]\<rparr>"
    unfolding expand_child_cases using False by (rule if_not_P)
  have lower: "\<And>c. state_cost st s' = Some c \<Longrightarrow> g nd + 1 < c"
    using False by auto
  have path: "(initial_state task, s') \<in> successor_rel task ^^ (g nd + 1)"
  proof -
    have "(state nd, s') \<in> successor_rel task" using mem by (force simp: successor_rel_def)
    then show ?thesis using valid_node_path[OF nd] by auto
  qed
  have entries: "valid_node task (entry_node e) \<and>
        (\<exists>t. e = ordering_policy key (entry_node e) (heuristic (entry_node e)) t) \<and>
        (\<exists>c. state_cost ?st' (state (entry_node e)) = Some c \<and> c \<le> g (entry_node e))"
    if e: "e \<in> set (open ?st')" for e
  proof (cases "e \<in> set (open st)")
    case True
    then have old: "valid_node task (entry_node e)"
      "\<exists>t. e = ordering_policy key (entry_node e) (heuristic (entry_node e)) t"
      "\<exists>c. state_cost st (state (entry_node e)) = Some c \<and> c \<le> g (entry_node e)"
      using inv by (auto simp: state_inv_def)
    then obtain c where c: "state_cost st (state (entry_node e)) = Some c" "c \<le> g (entry_node e)"
      by blast
    have "\<exists>c. state_cost ?st' (state (entry_node e)) = Some c \<and> c \<le> g (entry_node e)"
    proof (cases "state (entry_node e) = s'")
      case True
      then have "g nd + 1 < c" using lower c by simp
      then show ?thesis using True c st' by simp
    next
      case False
      then show ?thesis using c st' by simp
    qed
    then show ?thesis using old by blast
  next
    case False
    then have "e = ordering_policy key ?child (heuristic ?child) (node_tiebreaker st + 1)"
      using e st' by simp
    then show ?thesis using st' valid_child[OF nd mem] by auto
  qed
  have costs: "(initial_state task, s) \<in> successor_rel task ^^ c"
    if "state_cost ?st' s = Some c" for s c
    using that inv path st' by (auto simp: state_inv_def split: if_splits)
  show ?thesis unfolding state_inv_def using entries costs by blast
qed

lemma state_inv_fields [simp]:
  "state_inv task heuristic key (st\<lparr>counter := x\<rparr>) = state_inv task heuristic key st"
  "state_inv task heuristic key (st\<lparr>expansions := y\<rparr>) = state_inv task heuristic key st"
  "state_inv task heuristic key (st\<lparr>besth := z\<rparr>) = state_inv task heuristic key st"
  by (simp_all add: state_inv_def)

lemma state_inv_subset:
  "state_inv task heuristic key st \<Longrightarrow> set rest \<subseteq> set (open st) \<Longrightarrow>
   state_inv task heuristic key (st\<lparr>open := rest\<rparr>)"
  by (auto simp: state_inv_def)

lemma state_inv_entry:
  assumes "state_inv task heuristic key st" and "(f, h, tie, nd) \<in> set (open st)"
  shows "valid_node task nd" and "f = key nd h tie" and "h = heuristic nd"
    and "\<exists>c. state_cost st (state nd) = Some c \<and> c \<le> g nd"
proof -
  let ?e = "(f, h, tie, nd)"
  have "valid_node task (entry_node ?e) \<and>
        (\<exists>t. ?e = ordering_policy key (entry_node ?e) (heuristic (entry_node ?e)) t) \<and>
        (\<exists>c. state_cost st (state (entry_node ?e)) = Some c \<and> c \<le> g (entry_node ?e))"
    using assms unfolding state_inv_def by blast
  then show "valid_node task nd" and "f = key nd h tie" and "h = heuristic nd"
    and "\<exists>c. state_cost st (state nd) = Some c \<and> c \<le> g nd"
    by (auto simp: entry_node_def ordering_policy_def)
qed



lemma iteration_pop:
  assumes "heappop (open st) = Some ((f, h, tie, nd), rest)"
  shows "iteration task st =
     (if (\<exists>c. state_cost st (state nd) = Some c \<and> c < g nd)
      then Head (st\<lparr>open := rest, besth := (if h < besth st then h else besth st)\<rparr>)
      else if goal_reached task (state nd) then Return (Some (extract_solution nd))
      else Successors (st\<lparr>open := rest, besth := (if h < besth st then h else besth st),
                         expansions := expansions st + 1\<rparr>) nd
             (get_successor_states task (state nd)))"
  using assms by (auto simp: iteration_def Let_def split: option.splits)

lemma expand_child_keeps_cost:
  "state_cost st (state nd) = Some (g nd) \<Longrightarrow>
   state_cost (expand_child heuristic mk nd (opr, s') st) (state nd) = Some (g nd)"
  by (auto simp: expand_child_cases)

lemma config_inv_step:
  assumes "config_inv task heuristic key c"
  shows "config_inv task heuristic key (step task heuristic (ordering_policy key) c)"
proof (cases c)
  case (Head st)
  then have inv: "state_inv task heuristic key st" using assms by simp
  show ?thesis
  proof (cases "heappop (open st)")
    case None
    then show ?thesis using Head by (simp add: iteration_def)
  next
    case (Some a)
    then obtain f h tie nd rest where pop: "heappop (open st) = Some ((f, h, tie, nd), rest)"
      by (cases a) auto
    from heappop_Some[OF pop] have mem: "(f, h, tie, nd) \<in> set (open st)"
      and rest_eq: "rest = remove1 (f, h, tie, nd) (open st)"
      by auto
    have rest: "set rest \<subseteq> set (open st)"
      unfolding rest_eq by (rule set_remove1_subset)
    let ?st1 = "st\<lparr>open := rest, besth := (if h < besth st then h else besth st)\<rparr>"
    have inv1: "state_inv task heuristic key ?st1"
      using state_inv_subset[OF inv rest] by simp
    have nd: "valid_node task nd" and "\<exists>c. state_cost st (state nd) = Some c \<and> c \<le> g nd"
      using state_inv_entry[OF inv mem] by blast+
    then obtain c where c: "state_cost st (state nd) = Some c" "c \<le> g nd" by blast
    show ?thesis
    proof (cases "c < g nd")
      case True
      then show ?thesis using Head iteration_pop[OF pop, of task] c inv1 by simp
    next
      case False
      then have "c = g nd" using c by simp
      then show ?thesis using Head iteration_pop[OF pop, of task] c inv1 nd by simp
    qed
  qed
next
  case (Successors st nd pairs)
  then have inv: "state_inv task heuristic key st" and nd: "valid_node task nd"
    and cost: "state_cost st (state nd) = Some (g nd)"
    and sub: "set pairs \<subseteq> set (get_successor_states task (state nd))"
    using assms by simp_all
  show ?thesis
  proof (cases pairs)
    case Nil
    then show ?thesis using Successors inv by simp
  next
    case (Cons pair pairs')
    obtain opr s' where pair: "pair = (opr, s')" by (cases pair)
    have mem: "(opr, s') \<in> set (get_successor_states task (state nd))"
      using sub Cons pair by auto
    show ?thesis
      using Successors Cons pair state_inv_expand_child[OF inv nd mem]
        expand_child_keeps_cost[OF cost] nd sub by simp
  qed
next
  case (Return r)
  then show ?thesis by simp
next
  case (Raise e)
  then show ?thesis by simp
qed

lemma config_inv_funpow:
  "config_inv task heuristic key c \<Longrightarrow>
   config_inv task heuristic key ((step task heuristic (ordering_policy key) ^^ n) c)"
  by (induction n) (simp_all add: config_inv_step)

lemma config_inv_at:
  "config_inv task heuristic key (config_at task heuristic (ordering_policy key) n)"
  unfolding config_at_def by (rule config_inv_funpow[OF state_inv_initial])

section \<open>Termination\<close>











lemma config_at_0: "config_at task heuristic mk 0 = initial_config task heuristic mk"
  by (simp add: config_at_def)

lemma config_at_Suc:
  "config_at task heuristic mk (Suc n) = step task heuristic mk (config_at task heuristic mk n)"
  by (simp add: config_at_def)






lemma initial_config_cases:
  "initial_config task heuristic mk =
     (if float_overflow (heuristic (make_root_node (initial_state task))) then Raise OverflowError
      else Head \<lparr>open = [mk (make_root_node (initial_state task))
                            (heuristic (make_root_node (initial_state task))) 0],
                 state_cost = [initial_state task \<mapsto> 0], node_tiebreaker = 0,
                 besth = \<infinity>, counter = 0, expansions = 0\<rparr>)"
  by (simp add: initial_config_def Let_def heappush_def)

















section \<open>The staleness check\<close>

lemma float_overflow_small: "n \<le> 7 \<Longrightarrow> float_overflow (enat n) = False"
  by (simp add: float_overflow_def)

text \<open>The equations that evaluate a search on a concrete task.\<close>

lemmas eval_simps = config_at_def initial_config_def iteration_def expand_child_def
  float_overflow_small
  line_task_def dead_end_task_def detour_task_def detour_h_def
  blind_def ordering_policy_def ordered_node_astar_def
  heappush_def make_root_node_def make_child_node_def Let_def zero_enat_def one_enat_def
  numeral_eq_enat

text \<open>
  C3: in every iteration of the loop the popped entry is discarded, with no goal check and
  no expansion, exactly when the cost table's value for its state is strictly less than
  the node's g: then the next point is the loop test again, with only the entry gone (and
  \<open>besth\<close> updated); otherwise the next point is the return of the solution or the
  \<open>for\<close> loop over the successors, with the expansion counted. Every node that reaches
  the goal check has g equal to the table's value for its state.
\<close>

theorem staleness_check:
  assumes "config_at task heuristic (ordering_policy key) n = Head st"
    and "heappop (open st) = Some ((f, h, tie, node), rest)"
  shows "config_at task heuristic (ordering_policy key) (Suc n) =
           (if (\<exists>c. state_cost st (state node) = Some c \<and> c < g node)
            then Head (st\<lparr>open := rest, besth := (if h < besth st then h else besth st)\<rparr>)
            else if goal_reached task (state node) then Return (Some (extract_solution node))
            else Successors (st\<lparr>open := rest, besth := (if h < besth st then h else besth st),
                               expansions := expansions st + 1\<rparr>) node
                   (get_successor_states task (state node))) \<and>
         ((\<exists>st'. config_at task heuristic (ordering_policy key) (Suc n) = Head st') \<longleftrightarrow>
            (\<exists>c. state_cost st (state node) = Some c \<and> c < g node)) \<and>
         (\<not> (\<exists>c. state_cost st (state node) = Some c \<and> c < g node) \<longrightarrow>
            state_cost st (state node) = Some (g node))"
proof -
  have nxt: "config_at task heuristic (ordering_policy key) (Suc n) = iteration task st"
    using assms(1) by (simp add: config_at_Suc)
  have inv: "state_inv task heuristic key st"
    using config_inv_at[of task heuristic key n] assms(1) by simp
  have mem: "(f, h, tie, node) \<in> set (open st)"
    using heappop_Some[OF assms(2)] by blast
  obtain c where c: "state_cost st (state node) = Some c" "c \<le> g node"
    using state_inv_entry(4)[OF inv mem] by blast
  have 1: "config_at task heuristic (ordering_policy key) (Suc n) =
           (if (\<exists>c. state_cost st (state node) = Some c \<and> c < g node)
            then Head (st\<lparr>open := rest, besth := (if h < besth st then h else besth st)\<rparr>)
            else if goal_reached task (state node) then Return (Some (extract_solution node))
            else Successors (st\<lparr>open := rest, besth := (if h < besth st then h else besth st),
                               expansions := expansions st + 1\<rparr>) node
                   (get_successor_states task (state node)))"
    unfolding nxt by (rule iteration_pop[OF assms(2)])
  have 2: "(\<exists>st'. config_at task heuristic (ordering_policy key) (Suc n) = Head st') \<longleftrightarrow>
            (\<exists>c. state_cost st (state node) = Some c \<and> c < g node)"
    unfolding 1 by simp
  have 3: "\<not> (\<exists>c. state_cost st (state node) = Some c \<and> c < g node) \<longrightarrow>
            state_cost st (state node) = Some (g node)"
    using c by auto
  show ?thesis using 1 2 3 by blast
qed

lemma detour_at_14:
  "config_at detour_task detour_h (ordering_policy (\<lambda>node h tie. h)) 14 =
     Head \<lparr>open =
            [(3, 3, 4, SearchNode 4 (Some (SearchNode 3 (Some (SearchNode 2
                 (Some (SearchNode 0 None None 0)) (Some 0) 1)) (Some 2) 2)) (Some 3) 3),
             (3, 3, 5, SearchNode 4 (Some (SearchNode 1 (Some (SearchNode 0 None None 0))
                 (Some 1) 1)) (Some 4) 2)],
           state_cost = [0 \<mapsto> 0, 2 \<mapsto> 1, 1 \<mapsto> 1, 3 \<mapsto> 2, 4 \<mapsto> 2],
           node_tiebreaker = 5, besth = 1, counter = 4, expansions = 4\<rparr>"
  by (simp add: eval_simps eval_nat_numeral fun_upd_twist)

theorem staleness_check_witness:
  "\<exists>st f h tie node rest.
     config_at detour_task detour_h (ordering_policy (\<lambda>node h tie. h)) 14 = Head st \<and>
     heappop (open st) = Some ((f, h, tie, node), rest) \<and>
     state node = 4 \<and> g node = 3 \<and> state_cost st 4 = Some 2 \<and>
     config_at detour_task detour_h (ordering_policy (\<lambda>node h tie. h)) 15 =
       Head (st\<lparr>open := rest, besth := (if h < besth st then h else besth st)\<rparr>)"
proof -
  let ?x3 = "SearchNode 4 (Some (SearchNode 3 (Some (SearchNode 2 (Some (SearchNode 0 None None 0))
      (Some 0) 1)) (Some 2) 2)) (Some 3) (3::nat) :: (nat, nat) SearchNode"
  let ?x2 = "SearchNode 4 (Some (SearchNode 1 (Some (SearchNode 0 None None 0)) (Some 1) 1))
      (Some 4) (2::nat) :: (nat, nat) SearchNode"
  let ?st = "\<lparr>open = [(3, 3, 4, ?x3), (3, 3, 5, ?x2)],
      state_cost = [0 \<mapsto> 0, 2 \<mapsto> 1, 1 \<mapsto> 1, 3 \<mapsto> 2, 4 \<mapsto> 2],
      node_tiebreaker = 5, besth = 1, counter = 4, expansions = 4\<rparr>
      :: (nat, nat, enat) search_state"
  have pop: "heappop (open ?st) = Some ((3, 3, 4, ?x3), [(3, 3, 5, ?x2)])"
    by simp
  show ?thesis
    using staleness_check[OF detour_at_14 pop] detour_at_14 pop
    by (intro exI[of _ ?st] exI[of _ 3] exI[of _ 4] exI[of _ ?x3] exI[of _ "[(3, 3, 5, ?x2)]"])
      simp
qed






section \<open>The no-solution result\<close>








section \<open>The cost table and the pushed nodes\<close>

lemma table_of_pushed_update:
  assumes "table_of_pushed table nodes" and "\<And>c. table s' = Some c \<Longrightarrow> v < c"
    and "state child = s'" and "g child = v"
  shows "table_of_pushed (table(s' \<mapsto> v)) (nodes @ [child])"
proof -
  have a: "\<exists>c. (table(s' \<mapsto> v)) (state nd) = Some c \<and> c \<le> g nd"
    if "nd \<in> set (nodes @ [child])" for nd
  proof (cases "nd \<in> set nodes")
    case True
    then obtain c where c: "table (state nd) = Some c" "c \<le> g nd"
      using assms(1) unfolding table_of_pushed_def by blast
    show ?thesis
    proof (cases "state nd = s'")
      case True
      then have "v < c" using assms(2) c by simp
      then show ?thesis using True c by simp
    next
      case False
      then show ?thesis using c by simp
    qed
  next
    case False
    then have "nd = child" using that by simp
    then show ?thesis using assms(3,4) by simp
  qed
  have b: "\<exists>nd\<in>set (nodes @ [child]). state nd = s \<and> g nd = c"
    if "(table(s' \<mapsto> v)) s = Some c" for s c
  proof (cases "s = s'")
    case True
    then have "c = v" using that by simp
    then show ?thesis using True assms(3,4) by auto
  next
    case False
    then have "table s = Some c" using that by simp
    then obtain nd where "nd \<in> set nodes" "state nd = s" "g nd = c"
      using assms(1) unfolding table_of_pushed_def by blast
    then show ?thesis by auto
  qed
  show ?thesis unfolding table_of_pushed_def using a b by blast
qed

lemma pushed_by_child:
  "pushed_by heuristic (ordering_policy key) (Successors st nd ((opr, s') # pairs)) =
     (if heuristic (make_child_node nd opr s') = \<infinity> \<or>
         (\<exists>c. state_cost st s' = Some c \<and> c \<le> g nd + 1)
      then [] else [make_child_node nd opr s'])"
  by (simp add: expand_child_cases)

lemma table_of_pushed_step:
  assumes "search_state_of c = Some st" and "table_of_pushed (state_cost st) nodes"
    and "search_state_of (step task heuristic (ordering_policy key) c) = Some st'"
  shows "table_of_pushed (state_cost st') (nodes @ pushed_by heuristic (ordering_policy key) c)"
proof (cases c)
  case (Head st0)
  then have st0: "st0 = st" using assms(1) by simp
  show ?thesis
  proof (cases "heappop (open st)")
    case None
    then show ?thesis using assms(3) Head st0 by (simp add: iteration_def)
  next
    case (Some a)
    then obtain f h tie nd rest where pop: "heappop (open st) = Some ((f, h, tie, nd), rest)"
      by (cases a) auto
    have "state_cost st' = state_cost st"
      using assms(3) Head st0 iteration_pop[OF pop, of task] by (auto split: if_splits)
    then show ?thesis using assms(2) Head by simp
  qed
next
  case (Successors st0 nd pairs)
  then have st0: "st0 = st" using assms(1) by simp
  show ?thesis
  proof (cases pairs)
    case Nil
    then show ?thesis using assms Successors st0 by auto
  next
    case (Cons pair pairs')
    obtain opr s' where pair: "pair = (opr, s')" by (cases pair)
    have st': "st' = expand_child heuristic (ordering_policy key) nd (opr, s') st"
      using assms(3) Successors Cons pair st0 by simp
    show ?thesis
    proof (cases "heuristic (make_child_node nd opr s') = \<infinity> \<or>
         (\<exists>c. state_cost st s' = Some c \<and> c \<le> g nd + 1)")
      case True
      have "st' = st" unfolding st' expand_child_cases using True by (rule if_P)
      moreover have "pushed_by heuristic (ordering_policy key) c = []"
        unfolding Successors Cons pair st0 pushed_by_child using True by (rule if_P)
      ultimately show ?thesis using assms(2) by simp
    next
      case False
      have "st' = st\<lparr>state_cost := (state_cost st)(s' \<mapsto> g nd + 1),
              node_tiebreaker := node_tiebreaker st + 1,
              open := open st @ [ordering_policy key (make_child_node nd opr s')
                        (heuristic (make_child_node nd opr s')) (node_tiebreaker st + 1)]\<rparr>"
        unfolding st' expand_child_cases using False by (rule if_not_P)
      then have cost: "state_cost st' = (state_cost st)(s' \<mapsto> g nd + 1)" by simp
      have pushed: "pushed_by heuristic (ordering_policy key) c = [make_child_node nd opr s']"
        unfolding Successors Cons pair st0 pushed_by_child using False by (rule if_not_P)
      have "\<And>c. state_cost st s' = Some c \<Longrightarrow> g nd + 1 < c" using False by auto
      then show ?thesis
        unfolding cost pushed
        by (intro table_of_pushed_update[OF assms(2)]) simp_all
    qed
  qed
next
  case (Return r)
  then show ?thesis using assms(1) by simp
next
  case (Raise e)
  then show ?thesis using assms(1) by simp
qed

lemma state_before_state:
  "search_state_of (step task heuristic mk c) = Some st' \<Longrightarrow> \<exists>st. search_state_of c = Some st"
  by (cases c) auto

lemma table_of_pushed_at:
  "search_state_of (config_at task heuristic (ordering_policy key) n) = Some st \<Longrightarrow>
   table_of_pushed (state_cost st) (pushed_nodes task heuristic (ordering_policy key) n)"
proof (induction n arbitrary: st)
  case 0
  then show ?case
    by (auto simp: config_at_0 initial_config_def Let_def table_of_pushed_def heappush_def
        make_root_node_def split: if_splits)
next
  case (Suc n)
  let ?c = "config_at task heuristic (ordering_policy key) n"
  have nxt: "search_state_of (step task heuristic (ordering_policy key) ?c) = Some st"
    using Suc.prems by (simp add: config_at_Suc)
  then obtain st0 where st0: "search_state_of ?c = Some st0"
    using state_before_state by blast
  show ?case
    using table_of_pushed_step[OF st0 Suc.IH[OF st0] nxt] by simp
qed

lemma cost_step_mono:
  assumes "search_state_of c = Some st" and "state_cost st s = Some v"
    and "search_state_of (step task heuristic mk c) = Some st'"
  shows "\<exists>v'. state_cost st' s = Some v' \<and> v' \<le> v"
proof (cases c)
  case (Head st0)
  then have st0: "st0 = st" using assms(1) by simp
  show ?thesis
  proof (cases "heappop (open st)")
    case None
    then show ?thesis using assms(3) Head st0 by (simp add: iteration_def)
  next
    case (Some a)
    then obtain f h tie nd rest where pop: "heappop (open st) = Some ((f, h, tie, nd), rest)"
      by (cases a) auto
    have "state_cost st' = state_cost st"
      using assms(3) Head st0 iteration_pop[OF pop, of task] by (auto split: if_splits)
    then show ?thesis using assms(2) by simp
  qed
next
  case (Successors st0 nd pairs)
  then have st0: "st0 = st" using assms(1) by simp
  show ?thesis
  proof (cases pairs)
    case Nil
    then show ?thesis using assms Successors st0 by auto
  next
    case (Cons pair pairs')
    obtain opr s' where pair: "pair = (opr, s')" by (cases pair)
    have st': "st' = expand_child heuristic mk nd (opr, s') st"
      using assms(3) Successors Cons pair st0 by simp
    show ?thesis using assms(2) unfolding st' expand_child_cases by auto
  qed
next
  case (Return r)
  then show ?thesis using assms(1) by simp
next
  case (Raise e)
  then show ?thesis using assms(1) by simp
qed

lemma cost_mono_at:
  assumes "search_state_of (config_at task heuristic mk n) = Some st"
    and "state_cost st s = Some v"
    and "search_state_of (config_at task heuristic mk (n + k)) = Some st'"
  shows "\<exists>v'. state_cost st' s = Some v' \<and> v' \<le> v"
  using assms(3)
proof (induction k arbitrary: st')
  case 0
  then show ?case using assms(1,2) by simp
next
  case (Suc k)
  let ?c = "config_at task heuristic mk (n + k)"
  have nxt: "search_state_of (step task heuristic mk ?c) = Some st'"
    using Suc.prems by (simp add: config_at_Suc)
  then obtain st0 where st0: "search_state_of ?c = Some st0"
    using state_before_state by blast
  obtain v0 where v0: "state_cost st0 s = Some v0" "v0 \<le> v" using Suc.IH[OF st0] by blast
  obtain v' where "state_cost st' s = Some v'" "v' \<le> v0"
    using cost_step_mono[OF st0 v0(1) nxt] by blast
  then show ?case using v0(2) by auto
qed

text \<open>
  C4: at every point of an execution of \<open>astar_search\<close>, for every state that is a key of
  the cost table, the stored value is the minimum g over the nodes pushed onto the
  frontier for that state so far, the root counting as pushed with g = 0: some pushed
  node of that state has this g and none has a smaller one. The stored value of a state
  never increases: at every later point the state still has a value, and it is at most
  the earlier one. The points are the loop test and the end of each pass through the body
  of the \<open>for\<close> loop.
\<close>

theorem cost_table_minimum_of_pushed:
  assumes "search_state_of (config_at task heuristic (ordering_policy key) n) = Some st"
    and "state_cost st s = Some c"
  shows "(\<exists>nd\<in>set (pushed_nodes task heuristic (ordering_policy key) n). state nd = s \<and> g nd = c) \<and>
         (\<forall>nd\<in>set (pushed_nodes task heuristic (ordering_policy key) n). state nd = s \<longrightarrow> c \<le> g nd) \<and>
         (\<forall>m st'. n \<le> m \<and> search_state_of (config_at task heuristic (ordering_policy key) m) = Some st' \<longrightarrow>
            (\<exists>c'. state_cost st' s = Some c' \<and> c' \<le> c))"
proof -
  have t: "table_of_pushed (state_cost st) (pushed_nodes task heuristic (ordering_policy key) n)"
    using assms(1) by (rule table_of_pushed_at)
  have 1: "\<exists>nd\<in>set (pushed_nodes task heuristic (ordering_policy key) n). state nd = s \<and> g nd = c"
    using t assms(2) unfolding table_of_pushed_def by blast
  have 2: "\<forall>nd\<in>set (pushed_nodes task heuristic (ordering_policy key) n). state nd = s \<longrightarrow> c \<le> g nd"
    using t assms(2) unfolding table_of_pushed_def by fastforce
  have 3: "\<exists>c'. state_cost st' s = Some c' \<and> c' \<le> c"
    if "n \<le> m" and "search_state_of (config_at task heuristic (ordering_policy key) m) = Some st'"
    for m st'
    using cost_mono_at[OF assms(1,2), of "m - n" st'] that by simp
  show ?thesis using 1 2 3 by blast
qed

lemma detour_pushed_14:
  "pushed_nodes detour_task detour_h (ordering_policy (\<lambda>node h tie. h)) 14 =
     [SearchNode 0 None None 0,
      SearchNode 2 (Some (SearchNode 0 None None 0)) (Some 0) 1,
      SearchNode 1 (Some (SearchNode 0 None None 0)) (Some 1) 1,
      SearchNode 3 (Some (SearchNode 2 (Some (SearchNode 0 None None 0)) (Some 0) 1)) (Some 2) 2,
      SearchNode 4 (Some (SearchNode 3 (Some (SearchNode 2
                 (Some (SearchNode 0 None None 0)) (Some 0) 1)) (Some 2) 2)) (Some 3) 3,
      SearchNode 4 (Some (SearchNode 1 (Some (SearchNode 0 None None 0))
                 (Some 1) 1)) (Some 4) 2]"
  by (simp add: eval_simps eval_nat_numeral entry_node_def)

theorem cost_table_minimum_of_pushed_witness:
  "\<exists>st. search_state_of (config_at detour_task detour_h (ordering_policy (\<lambda>node h tie. h)) 14) = Some st \<and>
     state_cost st 4 = Some 2 \<and>
     (\<exists>nd\<in>set (pushed_nodes detour_task detour_h (ordering_policy (\<lambda>node h tie. h)) 14).
        state nd = 4 \<and> g nd = 2) \<and>
     map g (filter (\<lambda>nd. state nd = 4)
       (pushed_nodes detour_task detour_h (ordering_policy (\<lambda>node h tie. h)) 14)) = [3, 2]"
proof -
  let ?st = "\<lparr>open =
            [(3, 3, 4, SearchNode 4 (Some (SearchNode 3 (Some (SearchNode 2
                 (Some (SearchNode 0 None None 0)) (Some 0) 1)) (Some 2) 2)) (Some 3) 3),
             (3, 3, 5, SearchNode 4 (Some (SearchNode 1 (Some (SearchNode 0 None None 0))
                 (Some 1) 1)) (Some 4) 2)],
           state_cost = [0 \<mapsto> 0, 2 \<mapsto> 1, 1 \<mapsto> 1, 3 \<mapsto> 2, 4 \<mapsto> (2::nat)],
           node_tiebreaker = 5, besth = 1, counter = 4, expansions = 4\<rparr>
           :: (nat, nat, enat) search_state"
  have st: "search_state_of (config_at detour_task detour_h (ordering_policy (\<lambda>node h tie. h)) 14) = Some ?st"
    by (simp add: detour_at_14)
  have c: "state_cost ?st 4 = Some 2" by simp
  have l: "map g (filter (\<lambda>nd. state nd = 4)
       (pushed_nodes detour_task detour_h (ordering_policy (\<lambda>node h tie. h)) 14)) = [3, 2]"
    unfolding detour_pushed_14 by simp
  have w: "\<exists>nd\<in>set (pushed_nodes detour_task detour_h (ordering_policy (\<lambda>node h tie. h)) 14).
        state nd = 4 \<and> g nd = 2"
    using cost_table_minimum_of_pushed[OF st c] by (rule conjunct1)
  show ?thesis
    by (rule exI[of _ ?st]) (intro conjI st c w l)
qed

section \<open>Dead-end successors\<close>

lemma step_new_key:
  assumes "search_state_of c = Some st0"
    and "search_state_of (step task heuristic mk c) = Some st"
    and "state_cost st s = Some v"
  shows "state_cost st0 s = Some v \<or>
         (\<exists>nd\<in>set (generated_by c). state nd = s \<and> heuristic nd \<noteq> \<infinity>)"
proof (cases c)
  case (Head st1)
  then have st1: "st1 = st0" using assms(1) by simp
  show ?thesis
  proof (cases "heappop (open st0)")
    case None
    then show ?thesis using assms(2) Head st1 by (simp add: iteration_def)
  next
    case (Some a)
    then obtain f h tie nd rest where pop: "heappop (open st0) = Some ((f, h, tie, nd), rest)"
      by (cases a) auto
    have "state_cost st = state_cost st0"
      using assms(2) Head st1 iteration_pop[OF pop, of task] by (auto split: if_splits)
    then show ?thesis using assms(3) by simp
  qed
next
  case (Successors st1 nd pairs)
  then have st1: "st1 = st0" using assms(1) by simp
  show ?thesis
  proof (cases pairs)
    case Nil
    then show ?thesis using assms Successors st1 by auto
  next
    case (Cons pair pairs')
    obtain opr s' where pair: "pair = (opr, s')" by (cases pair)
    have st: "st = expand_child heuristic mk nd (opr, s') st0"
      using assms(2) Successors Cons pair st1 by simp
    have gen: "generated_by c = [make_child_node nd opr s']"
      using Successors Cons pair by simp
    show ?thesis using assms(3) unfolding st gen expand_child_cases
      by (auto split: if_splits)
  qed
next
  case (Return r)
  then show ?thesis using assms(1) by simp
next
  case (Raise e)
  then show ?thesis using assms(1) by simp
qed

lemma keys_generated_at:
  "search_state_of (config_at task heuristic mk n) = Some st \<Longrightarrow> state_cost st s = Some v \<Longrightarrow>
   s = initial_state task \<or>
   (\<exists>nd\<in>set (generated_nodes task heuristic mk n). state nd = s \<and> heuristic nd \<noteq> \<infinity>)"
proof (induction n arbitrary: st v)
  case 0
  then show ?case
    by (auto simp: config_at_0 initial_config_def Let_def split: if_splits)
next
  case (Suc n)
  let ?c = "config_at task heuristic mk n"
  have nxt: "search_state_of (step task heuristic mk ?c) = Some st"
    using Suc.prems(1) by (simp add: config_at_Suc)
  then obtain st0 where st0: "search_state_of ?c = Some st0"
    using state_before_state by blast
  from step_new_key[OF st0 nxt Suc.prems(2)] show ?case
  proof
    assume "state_cost st0 s = Some v"
    then show ?thesis using Suc.IH[OF st0] by auto
  next
    assume "\<exists>nd\<in>set (generated_by ?c). state nd = s \<and> heuristic nd \<noteq> \<infinity>"
    then show ?thesis by auto
  qed
qed

text \<open>
  C6: a generated successor whose heuristic value is +infinity is discarded on the spot:
  the body of the \<open>for\<close> loop leaves the frontier and the cost table as they are, so the
  child is not pushed and no table entry is made or changed for it. Hence a state other
  than the initial one whose generated children so far all have an infinite heuristic
  value is, at every point, neither a key of the cost table nor the state of a frontier
  entry.
\<close>

theorem dead_end_pruning:
  "(heuristic (make_child_node pop_node opr new_state) = \<infinity> \<longrightarrow>
      expand_child heuristic make_open_entry pop_node (opr, new_state) st = st) \<and>
   (search_state_of (config_at task heuristic (ordering_policy key) n) = Some st' \<and>
    s \<noteq> initial_state task \<and>
    (\<forall>nd\<in>set (generated_nodes task heuristic (ordering_policy key) n).
       state nd = s \<longrightarrow> heuristic nd = \<infinity>) \<longrightarrow>
      state_cost st' s = None \<and> (\<forall>e\<in>set (open st'). state (entry_node e) \<noteq> s))"
proof -
  have 1: "heuristic (make_child_node pop_node opr new_state) = \<infinity> \<longrightarrow>
      expand_child heuristic make_open_entry pop_node (opr, new_state) st = st"
    by (simp add: expand_child_cases)
  have 2: "state_cost st' s = None \<and> (\<forall>e\<in>set (open st'). state (entry_node e) \<noteq> s)"
    if st': "search_state_of (config_at task heuristic (ordering_policy key) n) = Some st'"
      and s: "s \<noteq> initial_state task"
      and inf: "\<forall>nd\<in>set (generated_nodes task heuristic (ordering_policy key) n).
         state nd = s \<longrightarrow> heuristic nd = \<infinity>"
  proof -
    have none: "state_cost st' s = None"
    proof (cases "state_cost st' s")
      case None
      then show ?thesis .
    next
      case (Some v)
      have "s = initial_state task \<or>
          (\<exists>nd\<in>set (generated_nodes task heuristic (ordering_policy key) n).
             state nd = s \<and> heuristic nd \<noteq> \<infinity>)"
        using st' Some by (rule keys_generated_at)
      then have False using s inf by auto
      then show ?thesis ..
    qed
    have inv: "state_inv task heuristic key st'"
      using config_inv_at[of task heuristic key n] st'
      by (cases "config_at task heuristic (ordering_policy key) n") auto
    have "state (entry_node e) \<noteq> s" if "e \<in> set (open st')" for e
    proof -
      have "\<exists>c. state_cost st' (state (entry_node e)) = Some c \<and> c \<le> g (entry_node e)"
        using inv that unfolding state_inv_def by blast
      then show ?thesis using none by auto
    qed
    then show ?thesis using none by blast
  qed
  show ?thesis using 1 2 by blast
qed

lemma detour_generated_14:
  "generated_nodes detour_task detour_h (ordering_policy (\<lambda>node h tie. h)) 14 =
     [SearchNode 2 (Some (SearchNode 0 None None 0)) (Some 0) 1,
      SearchNode 1 (Some (SearchNode 0 None None 0)) (Some 1) 1,
      SearchNode 3 (Some (SearchNode 2 (Some (SearchNode 0 None None 0)) (Some 0) 1)) (Some 2) 2,
      SearchNode 4 (Some (SearchNode 3 (Some (SearchNode 2
                 (Some (SearchNode 0 None None 0)) (Some 0) 1)) (Some 2) 2)) (Some 3) 3,
      SearchNode 4 (Some (SearchNode 1 (Some (SearchNode 0 None None 0))
                 (Some 1) 1)) (Some 4) 2,
      SearchNode 6 (Some (SearchNode 1 (Some (SearchNode 0 None None 0))
                 (Some 1) 1)) (Some 5) 2]"
  by (simp add: eval_simps eval_nat_numeral)

theorem dead_end_pruning_witness:
  "\<exists>st. search_state_of (config_at detour_task detour_h (ordering_policy (\<lambda>node h tie. h)) 14) = Some st \<and>
     (\<exists>nd\<in>set (generated_nodes detour_task detour_h (ordering_policy (\<lambda>node h tie. h)) 14).
        state nd = 6 \<and> detour_h nd = \<infinity>) \<and>
     state_cost st 6 = None \<and> (\<forall>e\<in>set (open st). state (entry_node e) \<noteq> 6)"
proof -
  let ?st = "\<lparr>open =
            [(3, 3, 4, SearchNode 4 (Some (SearchNode 3 (Some (SearchNode 2
                 (Some (SearchNode 0 None None 0)) (Some 0) 1)) (Some 2) 2)) (Some 3) 3),
             (3, 3, 5, SearchNode 4 (Some (SearchNode 1 (Some (SearchNode 0 None None 0))
                 (Some 1) 1)) (Some 4) 2)],
           state_cost = [0 \<mapsto> 0, 2 \<mapsto> 1, 1 \<mapsto> 1, 3 \<mapsto> 2, 4 \<mapsto> (2::nat)],
           node_tiebreaker = 5, besth = 1, counter = 4, expansions = 4\<rparr>
           :: (nat, nat, enat) search_state"
  have st: "search_state_of (config_at detour_task detour_h (ordering_policy (\<lambda>node h tie. h)) 14) = Some ?st"
    by (simp add: detour_at_14)
  have init: "6 \<noteq> initial_state detour_task" by (simp add: detour_task_def)
  have inf: "\<forall>nd\<in>set (generated_nodes detour_task detour_h (ordering_policy (\<lambda>node h tie. h)) 14).
       state nd = 6 \<longrightarrow> detour_h nd = \<infinity>"
    unfolding detour_generated_14 by (simp add: detour_h_def)
  have ex: "\<exists>nd\<in>set (generated_nodes detour_task detour_h (ordering_policy (\<lambda>node h tie. h)) 14).
        state nd = 6 \<and> detour_h nd = \<infinity>"
    unfolding detour_generated_14 by (simp add: detour_h_def)
  have concl: "state_cost ?st 6 = None \<and> (\<forall>e\<in>set (open ?st). state (entry_node e) \<noteq> 6)"
    using dead_end_pruning[of detour_h _ _ _ _ _ detour_task "\<lambda>node h tie. h" 14 ?st 6]
      st init inf by blast
  show ?thesis
    by (rule exI[of _ ?st]) (intro conjI st ex conjunct1[OF concl] conjunct2[OF concl])
qed

section \<open>Optimality of the A* policy\<close>




























section \<open>The tiebreakers of the frontier differ\<close>

lemma distinct_map_remove1: "distinct (map f xs) \<Longrightarrow> distinct (map f (remove1 x xs))"
proof (induction xs)
  case Nil
  then show ?case by simp
next
  case (Cons y ys)
  have "f y \<notin> f ` set (remove1 x ys)" using Cons.prems set_remove1_subset[of x ys] by auto
  then show ?case using Cons by auto
qed

lemma ties_distinct_step:
  assumes "search_state_of c = Some st" and "ties_distinct st"
    and "search_state_of (step task heuristic (ordering_policy key) c) = Some st'"
  shows "ties_distinct st'"
proof (cases c)
  case (Head st0)
  then have st0: "st0 = st" using assms(1) by simp
  show ?thesis
  proof (cases "heappop (open st)")
    case None
    then show ?thesis using assms(3) Head st0 by (simp add: iteration_def)
  next
    case (Some a)
    then obtain f h tie nd rest where pop: "heappop (open st) = Some ((f, h, tie, nd), rest)"
      by (cases a) auto
    have rest_eq: "rest = remove1 (f, h, tie, nd) (open st)" using heappop_Some[OF pop] by blast
    have "open st' = rest \<and> node_tiebreaker st' = node_tiebreaker st"
      using assms(3) Head st0 iteration_pop[OF pop, of task] by (auto split: if_splits)
    moreover have "distinct (map (\<lambda>e. fst (snd (snd e))) rest)"
      unfolding rest_eq using assms(2) by (simp add: ties_distinct_def distinct_map_remove1)
    moreover have "\<forall>e\<in>set rest. fst (snd (snd e)) \<le> node_tiebreaker st"
      unfolding rest_eq using assms(2) set_remove1_subset[of "(f, h, tie, nd)" "open st"]
      by (auto simp: ties_distinct_def)
    ultimately show ?thesis by (simp add: ties_distinct_def)
  qed
next
  case (Successors st0 nd pairs)
  then have st0: "st0 = st" using assms(1) by simp
  show ?thesis
  proof (cases pairs)
    case Nil
    then have "st' = st\<lparr>counter := counter st + 1\<rparr>" using assms(3) Successors st0 by simp
    then show ?thesis using assms(2) by (simp add: ties_distinct_def)
  next
    case (Cons pair pairs')
    obtain opr s' where pair: "pair = (opr, s')" by (cases pair)
    have st': "st' = expand_child heuristic (ordering_policy key) nd (opr, s') st"
      using assms(3) Successors Cons pair st0 by simp
    show ?thesis
    proof (cases "heuristic (make_child_node nd opr s') = \<infinity> \<or>
         (\<exists>c. state_cost st s' = Some c \<and> c \<le> g nd + 1)")
      case True
      have "st' = st" unfolding st' expand_child_cases using True by (rule if_P)
      then show ?thesis using assms(2) by simp
    next
      case False
      have "st' = st\<lparr>state_cost := (state_cost st)(s' \<mapsto> g nd + 1),
              node_tiebreaker := node_tiebreaker st + 1,
              open := open st @ [ordering_policy key (make_child_node nd opr s')
                        (heuristic (make_child_node nd opr s')) (node_tiebreaker st + 1)]\<rparr>"
        unfolding st' expand_child_cases using False by (rule if_not_P)
      then have o: "open st' = open st @ [ordering_policy key (make_child_node nd opr s')
                        (heuristic (make_child_node nd opr s')) (node_tiebreaker st + 1)]"
        and t: "node_tiebreaker st' = node_tiebreaker st + 1"
        by simp_all
      have old: "\<forall>e\<in>set (open st). fst (snd (snd e)) \<le> node_tiebreaker st"
        and d: "distinct (map (\<lambda>e. fst (snd (snd e))) (open st))"
        using assms(2) by (simp_all add: ties_distinct_def)
      have "node_tiebreaker st + 1 \<notin> (\<lambda>e. fst (snd (snd e))) ` set (open st)"
        using old by fastforce
      then have "distinct (map (\<lambda>e. fst (snd (snd e))) (open st'))"
        unfolding o using d by (simp add: ordering_policy_def)
      moreover have "\<forall>e\<in>set (open st'). fst (snd (snd e)) \<le> node_tiebreaker st'"
        unfolding o t using old by (fastforce simp: ordering_policy_def)
      ultimately show ?thesis by (simp add: ties_distinct_def)
    qed
  qed
next
  case (Return r)
  then show ?thesis using assms(1) by simp
next
  case (Raise e)
  then show ?thesis using assms(1) by simp
qed

lemma ties_distinct_at:
  "search_state_of (config_at task heuristic (ordering_policy key) n) = Some st \<Longrightarrow>
   ties_distinct st"
proof (induction n arbitrary: st)
  case 0
  then show ?case
    by (auto simp: config_at_0 initial_config_cases ties_distinct_def ordering_policy_def
        split: if_splits)
next
  case (Suc n)
  let ?c = "config_at task heuristic (ordering_policy key) n"
  have nxt: "search_state_of (step task heuristic (ordering_policy key) ?c) = Some st"
    using Suc.prems by (simp add: config_at_Suc)
  then obtain st0 where st0: "search_state_of ?c = Some st0"
    using state_before_state by blast
  show ?case using ties_distinct_step[OF st0 Suc.IH[OF st0] nxt] .
qed

end
